theory Spec2Isabelle
  imports Main "HOL-Library.Sublist"
begin

section \<open>Python string operations used by the two scripts\<close>

text \<open>
  Strings are lists of characters. The model covers text whose code points lie below 256:
  every \<^typ>\<open>char\<close> stands for the code point of the same number, and the Unicode classes
  that \<^verbatim>\<open>str.strip\<close> and \<^verbatim>\<open>str.isdigit\<close> consult are given for these code points.
\<close>

text \<open>\<^verbatim>\<open>sub in s\<close>: some position of \<open>s\<close> starts a copy of \<open>sub\<close>.\<close>

fun str_contains :: "string \<Rightarrow> string \<Rightarrow> bool" where
  "str_contains sub [] = (sub = [])"
| "str_contains sub (c # cs) = (prefix sub (c # cs) \<or> str_contains sub cs)"

text \<open>
  \<^verbatim>\<open>s.find(sub, start)\<close> for a start that is not negative: the lowest index at or after
  \<open>start\<close> where \<open>sub\<close> begins, or \<open>-1\<close>. \<open>find_at\<close> searches a tail of the string whose
  first character has index \<open>i\<close>.
\<close>

fun find_at :: "string \<Rightarrow> string \<Rightarrow> nat \<Rightarrow> int" where
  "find_at sub [] i = (if sub = [] then int i else - 1)"
| "find_at sub (c # cs) i = (if prefix sub (c # cs) then int i else find_at sub cs (Suc i))"

definition str_find :: "string \<Rightarrow> string \<Rightarrow> nat \<Rightarrow> int" where
  "str_find s sub start = (if length s < start then - 1 else find_at sub (drop start s) start)"

text \<open>\<^verbatim>\<open>s[i:j]\<close> for indices that are not negative; empty when \<open>j \<le> i\<close>.\<close>

definition str_slice :: "string \<Rightarrow> nat \<Rightarrow> nat \<Rightarrow> string" where
  "str_slice s i j = take (j - i) (drop i s)"

text \<open>
  \<^verbatim>\<open>s.strip()\<close>: the characters below 256 for which \<^verbatim>\<open>str.isspace\<close> holds are tab,
  line feed, vertical tab, form feed, carriage return, the separators \<open>0x1C\<close> to \<open>0x1F\<close>,
  the space, the next-line control \<open>0x85\<close> and the no-break space \<open>0xA0\<close>.
\<close>

definition is_space :: "char \<Rightarrow> bool" where
  "is_space c = (c \<in> set [CHR 0x09, CHR 0x0A, CHR 0x0B, CHR 0x0C, CHR 0x0D,
                            CHR 0x1C, CHR 0x1D, CHR 0x1E, CHR 0x1F, CHR 0x20,
                            CHR 0x85, CHR 0xA0])"

definition str_strip :: "string \<Rightarrow> string" where
  "str_strip s = rev (dropWhile is_space (rev (dropWhile is_space s)))"

text \<open>
  \<^verbatim>\<open>s.split(sep)\<close>: the string is cut at each copy of \<open>sep\<close>, found from the left, a
  search resuming behind the copy just found. Python raises \<^verbatim>\<open>ValueError\<close> for an empty
  separator; the one call in the scripts passes the literal \<^verbatim>\<open>'class:configuration'\<close>, and
  for an empty separator this function returns the string uncut.
\<close>

fun str_split :: "string \<Rightarrow> string \<Rightarrow> string list" where
  "str_split sep [] = [[]]"
| "str_split sep (c # cs) =
     (if sep \<noteq> [] \<and> prefix sep (c # cs)
      then [] # str_split sep (drop (length sep) (c # cs))
      else (case str_split sep cs of
              [] \<Rightarrow> [[c]]
            | chunk # chunks \<Rightarrow> (c # chunk) # chunks))"

text \<open>\<^verbatim>\<open>sep.join(parts)\<close>, the inverse direction, used to describe status texts.\<close>

fun str_join :: "string \<Rightarrow> string list \<Rightarrow> string" where
  "str_join sep [] = []"
| "str_join sep [p] = p"
| "str_join sep (p # q # ps) = p @ sep @ str_join sep (q # ps)"


section \<open>The automation bridge and the status parser\<close>

text \<open>
  \<^verbatim>\<open>_run_applescript\<close> (both files): \<^verbatim>\<open>subprocess.run(..., check=True)\<close> either
  completes, and the function returns the standard output stripped, or raises
  \<^verbatim>\<open>CalledProcessError\<close>, which the function catches, returning the empty string.
\<close>

datatype process_result = Completed string | CalledProcessError string

fun run_applescript :: "process_result \<Rightarrow> string" where
  "run_applescript (Completed stdout) = str_strip stdout"
| "run_applescript (CalledProcessError stderr) = []"

definition boundary :: string where
  "boundary = ''class:configuration''"

text \<open>
  The \<^verbatim>\<open>for config_block in configs\<close> loop of \<^verbatim>\<open>_get_vpn_status\<close>. A block that holds
  the name but no \<^verbatim>\<open>state:\<close> is passed over and the loop goes on.
\<close>

fun scan_blocks :: "string \<Rightarrow> string list \<Rightarrow> string" where
  "scan_blocks config_name [] = ''NOT_FOUND''"
| "scan_blocks config_name (config_block # configs) =
     (if str_contains (''name:'' @ config_name) config_block then
        (let state_start = str_find config_block ''state:'' 0 in
         if state_start \<noteq> - 1 then
           (let state_end = str_find config_block '','' (nat state_start);
                state_end = (if state_end = - 1 then int (length config_block) else state_end)
            in str_strip (str_slice config_block (nat (state_start + 6)) (nat state_end)))
         else scan_blocks config_name configs)
      else scan_blocks config_name configs)"

text \<open>
  \<^verbatim>\<open>_get_vpn_status\<close> from the point where the bridge has returned \<open>result\<close>, and the
  whole function, given what the \<^verbatim>\<open>osascript\<close> process did.
\<close>

definition parse_status :: "string \<Rightarrow> string \<Rightarrow> string" where
  "parse_status result config_name =
     (if result = [] then ''UNKNOWN''
      else scan_blocks config_name (str_split boundary result))"

definition get_vpn_status :: "process_result \<Rightarrow> string \<Rightarrow> string" where
  "get_vpn_status proc config_name = parse_status (run_applescript proc) config_name"


section \<open>Connect and disconnect\<close>

text \<open>
  What an operation does to the outside world is recorded as a list of events, in order.
  The status poller is a function from the number of the poll (counted from 0 within one
  operation) to the status string that \<^verbatim>\<open>_get_vpn_status\<close> returns there.
\<close>

datatype command = Connect_config string | Disconnect_config string | Enter_password string

text \<open>
  The exceptions that the calls of the monitor can raise. \<^verbatim>\<open>KeyboardInterrupt\<close> derives
  from \<^verbatim>\<open>BaseException\<close> only; the others derive from \<^verbatim>\<open>Exception\<close>: \<^verbatim>\<open>EOFError\<close>
  from \<^verbatim>\<open>input\<close> at the end of the input, \<^verbatim>\<open>ValueError\<close> from \<^verbatim>\<open>time.sleep\<close> of a
  negative length, \<^verbatim>\<open>OverflowError\<close> from \<^verbatim>\<open>time.sleep\<close> of a length too large for
  the clock, \<^verbatim>\<open>OSError\<close> from \<^verbatim>\<open>subprocess.run\<close> when the program cannot be started.
\<close>

datatype exn = KeyboardInterrupt | EOFError | ValueError | OverflowError | OSError

datatype message =
    Waiting_for_connection | Checking_status nat | Disconnecting
  | Token_must_be_6_digits | Credentials_stored | No_stored_credentials
  | Testing_connection | Starting_monitor string | Check_interval_is int | Press_ctrl_c
  | Vpn_connected | Vpn_disconnected string | Internet_detected | Reconnected nat
  | Reconnection_failed | No_internet | Error_during_monitoring exn
  | Received_signal | Monitoring_stopped

datatype event =
    Applescript command
  | Status_poll
  | Ping
  | Prompt_token
  | Sleep int
  | Print message

text \<open>The test \<^verbatim>\<open>"EXITING" in status or "DISCONNECTED" in status\<close>.\<close>

definition exiting_or_disconnected :: "string \<Rightarrow> bool" where
  "exiting_or_disconnected status =
     (str_contains ''EXITING'' status \<or> str_contains ''DISCONNECTED'' status)"

text \<open>
  The loop \<^verbatim>\<open>for i in range(30)\<close> of \<^verbatim>\<open>_connect_vpn\<close>, at iteration \<open>i\<close> with \<open>n\<close>
  iterations left. The two files differ in one thing: \<^verbatim>\<open>tunnelblick_vpn.py\<close> prints its
  progress (\<open>progress = True\<close>), \<^verbatim>\<open>vpn_monitor.py\<close> does not.
\<close>

fun connect_wait :: "bool \<Rightarrow> (nat \<Rightarrow> string) \<Rightarrow> nat \<Rightarrow> nat \<Rightarrow> bool \<times> event list" where
  "connect_wait progress poll i 0 = (False, [])"
| "connect_wait progress poll i (Suc n) =
     (let status = poll i in
      if status = ''CONNECTED'' then (True, [Status_poll])
      else if exiting_or_disconnected status then (False, [Status_poll])
      else (let (r, evs) = connect_wait progress poll (Suc i) n in
            (r, [Status_poll, Sleep 1]
                @ (if progress then [Print (Checking_status (i + 1))] else []) @ evs)))"

definition connect_vpn :: "bool \<Rightarrow> (nat \<Rightarrow> string) \<Rightarrow> string \<Rightarrow> string \<Rightarrow> bool \<times> event list" where
  "connect_vpn progress poll config_name password =
     (let (r, evs) = connect_wait progress poll 0 30 in
      (r, [Applescript (Connect_config config_name), Sleep 2,
           Applescript (Enter_password password)]
          @ (if progress then [Print Waiting_for_connection] else []) @ evs))"

text \<open>The loop \<^verbatim>\<open>for i in range(10)\<close> of \<^verbatim>\<open>_disconnect_vpn\<close>, and the function.\<close>

fun disconnect_wait :: "(nat \<Rightarrow> string) \<Rightarrow> nat \<Rightarrow> nat \<Rightarrow> bool \<times> event list" where
  "disconnect_wait poll i 0 = (False, [])"
| "disconnect_wait poll i (Suc n) =
     (let status = poll i in
      if exiting_or_disconnected status then (True, [Status_poll])
      else (let (r, evs) = disconnect_wait poll (Suc i) n in
            (r, [Status_poll, Sleep 1] @ evs)))"

definition disconnect_vpn :: "(nat \<Rightarrow> string) \<Rightarrow> string \<Rightarrow> bool \<times> event list" where
  "disconnect_vpn poll config_name =
     (let (r, evs) = disconnect_wait poll 0 10 in
      (r, [Applescript (Disconnect_config config_name), Print Disconnecting] @ evs))"

text \<open>
  The events of \<open>k\<close> iterations that each found nothing final, the first of them being
  iteration \<open>i\<close>: a poll, a second's sleep and, where progress is printed, its line.
\<close>

fun idle_iterations :: "bool \<Rightarrow> nat \<Rightarrow> nat \<Rightarrow> event list" where
  "idle_iterations progress i 0 = []"
| "idle_iterations progress i (Suc k) =
     [Status_poll, Sleep 1] @ (if progress then [Print (Checking_status (i + 1))] else [])
     @ idle_iterations progress (Suc i) k"

text \<open>
  The events of \<^verbatim>\<open>_connect_vpn\<close> before its loop: the connect command, the wait for the
  login dialog, the script that types the password, and the line \<^verbatim>\<open>tunnelblick_vpn.py\<close>
  prints.
\<close>

definition setup_events :: "bool \<Rightarrow> string \<Rightarrow> string \<Rightarrow> event list" where
  "setup_events progress config_name password =
     [Applescript (Connect_config config_name), Sleep 2, Applescript (Enter_password password)]
     @ (if progress then [Print Waiting_for_connection] else [])"

text \<open>A status at which the connect loop returns.\<close>

definition terminal :: "string \<Rightarrow> bool" where
  "terminal status = (status = ''CONNECTED'' \<or> exiting_or_disconnected status)"

definition polls :: "event list \<Rightarrow> nat" where
  "polls evs = count_list evs Status_poll"

abbreviation (input) shows_down :: "string \<Rightarrow> bool" where
  "shows_down status \<equiv> sublist ''EXITING'' status \<or> sublist ''DISCONNECTED'' status"


section \<open>The token prompt\<close>

text \<open>
  \<^verbatim>\<open>str.isdigit\<close>: the string is not empty and \<^verbatim>\<open>isdigit\<close> holds for each of its
  characters. Below 256 these are the ten decimal digits and the superscript digits two,
  three and one (\<open>0xB2\<close>, \<open>0xB3\<close>, \<open>0xB9\<close>).
\<close>

definition isdigit_chars :: string where
  "isdigit_chars = ''0123456789'' @ [CHR 0xB2, CHR 0xB3, CHR 0xB9]"

definition is_digit :: "char \<Rightarrow> bool" where
  "is_digit c = (c \<in> set isdigit_chars)"

definition str_isdigit :: "string \<Rightarrow> bool" where
  "str_isdigit s = (s \<noteq> [] \<and> list_all is_digit s)"

text \<open>
  \<^verbatim>\<open>VPNMonitor._get_yubikey_token\<close>. The argument is what the standard input still holds,
  line by line; each call of \<^verbatim>\<open>input\<close> takes the first line, and raises \<^verbatim>\<open>EOFError\<close>
  when there is none. The function has no handler, so the exception leaves it.
\<close>

fun get_yubikey_token :: "string list \<Rightarrow> (exn + string) \<times> event list" where
  "get_yubikey_token [] = (Inl EOFError, [Prompt_token])"
| "get_yubikey_token (line # lines) =
     (let token = str_strip line in
      if str_isdigit token \<and> length token = 6 then (Inr token, [Prompt_token])
      else (let (r, evs) = get_yubikey_token lines in
            (r, [Prompt_token, Print Token_must_be_6_digits] @ evs)))"






section \<open>The secret store\<close>

text \<open>
  Modelled from the spec: the vault, the \<^verbatim>\<open>keyring\<close> library, which is not part of the
  repository. It is a store of one string for each pair of a service name and a sub-key,
  whose two operations raise an error when the backend does not work.
\<close>

datatype keyring_error = KeyringError

record keyring =
  secrets :: "string \<times> string \<rightharpoonup> string"
  working :: bool

definition keyring_set_password ::
  "keyring \<Rightarrow> string \<Rightarrow> string \<Rightarrow> string \<Rightarrow> keyring_error + keyring" where
  "keyring_set_password k service username password =
     (if working k then Inr (k\<lparr>secrets := (secrets k)((service, username) \<mapsto> password)\<rparr>)
      else Inl KeyringError)"

definition keyring_get_password ::
  "keyring \<Rightarrow> string \<Rightarrow> string \<Rightarrow> keyring_error + string option" where
  "keyring_get_password k service username =
     (if working k then Inr (secrets k (service, username)) else Inl KeyringError)"

text \<open>\<^verbatim>\<open>_store_credentials\<close> has no handler; \<^verbatim>\<open>_get_stored_credentials\<close> returns
  \<^verbatim>\<open>None\<close> on any exception.\<close>

definition service_name :: "string \<Rightarrow> string" where
  "service_name config_name = ''tunnelblick_vpn_'' @ config_name"

definition store_credentials ::
  "keyring \<Rightarrow> string \<Rightarrow> string \<Rightarrow> keyring_error + keyring \<times> event list" where
  "store_credentials k config_name pfx =
     (case keyring_set_password k (service_name config_name) ''prefix'' pfx of
        Inl e \<Rightarrow> Inl e
      | Inr k' \<Rightarrow> Inr (k', [Print Credentials_stored]))"

definition get_stored_credentials :: "keyring \<Rightarrow> string \<Rightarrow> string option" where
  "get_stored_credentials k config_name =
     (case keyring_get_password k (service_name config_name) ''prefix'' of
        Inl e \<Rightarrow> None
      | Inr pfx \<Rightarrow> pfx)"

text \<open>A history of writes: each pair is a configuration name and the prefix stored for it.
  A write that raises leaves the vault as it was.\<close>

fun store_all :: "keyring \<Rightarrow> (string \<times> string) list \<Rightarrow> keyring" where
  "store_all k [] = k"
| "store_all k ((config_name, pfx) # writes) =
     (case store_credentials k config_name pfx of
        Inl e \<Rightarrow> store_all k writes
      | Inr (k', evs) \<Rightarrow> store_all k' writes)"

text \<open>A working vault with no entries.\<close>

definition empty_keyring :: keyring where
  "empty_keyring = \<lparr>secrets = Map.empty, working = True\<rparr>"


section \<open>The monitor\<close>

record monitor =
  config_name :: string
  check_interval :: int
  running :: bool
  reconnect_count :: nat

text \<open>\<^verbatim>\<open>VPNMonitor.__init__\<close>.\<close>

definition init_monitor :: "string \<Rightarrow> int \<Rightarrow> monitor" where
  "init_monitor name interval =
     \<lparr>config_name = name, check_interval = interval, running = False, reconnect_count = 0\<rparr>"

text \<open>
  What the outside world does during one cycle of the loop: the status the poll returns
  or the exception it raises, the same for the reachability probe (\<^verbatim>\<open>CalledProcessError\<close>
  is caught there and read as unreachable), the lines on the standard input, the statuses
  that the polls of a connect attempt return, and the blocking calls during which a
  shutdown signal arrives. The handler runs in the main thread while such a call is
  interrupted, and the call then resumes.
\<close>

datatype phase =
    During_poll | During_ping | During_token | During_connect | During_sleep | During_cooldown

record cycle_env =
  status_result :: "exn + string"
  ping_result :: "exn + bool"
  token_lines :: "string list"
  connect_statuses :: "nat \<Rightarrow> string"
  signals :: "phase \<Rightarrow> bool"

text \<open>\<^verbatim>\<open>VPNMonitor._signal_handler\<close>, and the arrival of a signal during a phase.\<close>

definition signal_handler :: "monitor \<Rightarrow> monitor \<times> event list" where
  "signal_handler m = (m\<lparr>running := False\<rparr>, [Print Received_signal])"

definition deliver :: "cycle_env \<Rightarrow> phase \<Rightarrow> monitor \<Rightarrow> monitor \<times> event list" where
  "deliver env ph m = (if signals env ph then signal_handler m else (m, []))"

text \<open>Lines 298 to 306 of \<^verbatim>\<open>vpn_monitor.py\<close>: the branch taken when the probe succeeds.\<close>

definition attempt_reconnect ::
  "string \<Rightarrow> cycle_env \<Rightarrow> monitor \<Rightarrow> (exn + unit) \<times> monitor \<times> event list" where
  "attempt_reconnect pfx env m =
     (let (tok, evs1) = get_yubikey_token (token_lines env);
          (m1, sig1) = deliver env During_token m
      in case tok of
           Inl e \<Rightarrow> (Inl e, m1, [Print Internet_detected] @ evs1 @ sig1)
         | Inr token \<Rightarrow>
             (let full_password = pfx @ token;
                  (ok, evs2) = connect_vpn False (connect_statuses env) (config_name m1)
                                 full_password;
                  (m2, sig2) = deliver env During_connect m1;
                  evs = [Print Internet_detected] @ evs1 @ sig1 @ evs2 @ sig2
              in if ok
                 then (Inr (), m2\<lparr>reconnect_count := reconnect_count m2 + 1\<rparr>,
                       evs @ [Print (Reconnected (reconnect_count m2 + 1))])
                 else (Inr (), m2, evs @ [Print Reconnection_failed])))"

text \<open>Lines 286 to 308: the poll and what follows from its status.\<close>

definition check_and_reconnect ::
  "string \<Rightarrow> cycle_env \<Rightarrow> monitor \<Rightarrow> (exn + unit) \<times> monitor \<times> event list" where
  "check_and_reconnect pfx env m =
     (let (m1, sig1) = deliver env During_poll m in
      case status_result env of
        Inl e \<Rightarrow> (Inl e, m1, [Status_poll] @ sig1)
      | Inr status \<Rightarrow>
          if status = ''CONNECTED''
          then (Inr (), m1\<lparr>reconnect_count := 0\<rparr>, [Status_poll] @ sig1 @ [Print Vpn_connected])
          else (let (m2, sig2) = deliver env During_ping m1;
                    evs = [Status_poll] @ sig1 @ [Print (Vpn_disconnected status), Ping] @ sig2
                in case ping_result env of
                     Inl e \<Rightarrow> (Inl e, m2, evs)
                   | Inr reachable \<Rightarrow>
                       if reachable
                       then (let (r, m3, evs3) = attempt_reconnect pfx env m2
                             in (r, m3, evs @ evs3))
                       else (Inr (), m2, evs @ [Print No_internet])))"

text \<open>Lines 311 and 312: \<^verbatim>\<open>if self.running: time.sleep(self.check_interval)\<close>.
  \<^verbatim>\<open>time.sleep\<close> raises \<^verbatim>\<open>ValueError\<close> for a negative length, and
  \<^verbatim>\<open>OverflowError\<close> for a length that does not fit the clock's 64-bit count of
  nanoseconds, which is every whole number of seconds from 9223372037 on.\<close>

definition interval_sleep ::
  "cycle_env \<Rightarrow> monitor \<Rightarrow> (exn + unit) \<times> monitor \<times> event list" where
  "interval_sleep env m =
     (if \<not> running m then (Inr (), m, [])
      else if check_interval m < 0 then (Inl ValueError, m, [])
      else if 9223372037 \<le> check_interval m then (Inl OverflowError, m, [])
      else (let (m1, sig1) = deliver env During_sleep m
            in (Inr (), m1, [Sleep (check_interval m)] @ sig1)))"

text \<open>The body of the \<^verbatim>\<open>try\<close>.\<close>

definition try_body ::
  "string \<Rightarrow> cycle_env \<Rightarrow> monitor \<Rightarrow> (exn + unit) \<times> monitor \<times> event list" where
  "try_body pfx env m =
     (case check_and_reconnect pfx env m of
        (Inl e, m1, evs) \<Rightarrow> (Inl e, m1, evs)
      | (Inr u, m1, evs) \<Rightarrow>
          (let (r, m2, evs2) = interval_sleep env m1 in (r, m2, evs @ evs2)))"

text \<open>One pass through the \<^verbatim>\<open>while\<close> body: the \<^verbatim>\<open>try\<close> with its two handlers.\<close>

datatype cycle_end = Next_cycle | Break

definition monitor_cycle ::
  "string \<Rightarrow> cycle_env \<Rightarrow> monitor \<Rightarrow> cycle_end \<times> monitor \<times> event list" where
  "monitor_cycle pfx env m =
     (case try_body pfx env m of
        (Inr u, m1, evs) \<Rightarrow> (Next_cycle, m1, evs)
      | (Inl e, m1, evs) \<Rightarrow>
          if e = KeyboardInterrupt then (Break, m1, evs)
          else (let (m2, sig2) = deliver env During_cooldown m1
                in (Next_cycle, m2, evs @ [Print (Error_during_monitoring e), Sleep 5] @ sig2)))"

text \<open>
  The loop \<^verbatim>\<open>while self.running\<close>. It can run forever, so it is given the cycles of a
  finite stretch of time: the result is \<open>None\<close> when the loop is still running after the
  last of them, and otherwise why it stopped, the final state and all events.
\<close>

datatype stop_reason = Flag_cleared | Interrupted

fun monitor_loop ::
  "string \<Rightarrow> cycle_env list \<Rightarrow> monitor \<Rightarrow> (stop_reason \<times> monitor \<times> event list) option" where
  "monitor_loop pfx [] m = (if running m then None else Some (Flag_cleared, m, []))"
| "monitor_loop pfx (env # rest) m =
     (if \<not> running m then Some (Flag_cleared, m, [])
      else (case monitor_cycle pfx env m of
              (Break, m1, evs) \<Rightarrow> Some (Interrupted, m1, evs)
            | (Next_cycle, m1, evs) \<Rightarrow>
                (case monitor_loop pfx rest m1 of
                   None \<Rightarrow> None
                 | Some (why, mf, evs') \<Rightarrow> Some (why, mf, evs @ evs'))))"

text \<open>\<^verbatim>\<open>VPNMonitor.start_monitoring\<close>; \<^verbatim>\<open>if not prefix\<close> holds for \<^verbatim>\<open>None\<close> and for the
  empty string.\<close>

definition start_monitoring ::
  "keyring \<Rightarrow> cycle_env list \<Rightarrow> monitor \<Rightarrow> (monitor \<times> event list) option" where
  "start_monitoring k envs m =
     (case get_stored_credentials k (config_name m) of
        None \<Rightarrow> Some (m, [Print No_stored_credentials])
      | Some pfx \<Rightarrow>
          if pfx = [] then Some (m, [Print No_stored_credentials])
          else (case monitor_loop pfx envs (m\<lparr>running := True\<rparr>) of
                  None \<Rightarrow> None
                | Some (why, mf, evs) \<Rightarrow>
                    Some (mf, [Print (Starting_monitor (config_name m)),
                               Print (Check_interval_is (check_interval m)), Print Press_ctrl_c]
                              @ evs @ [Print Monitoring_stopped])))"

text \<open>\<^verbatim>\<open>VPNMonitor.test_connection\<close>.\<close>

definition test_connection ::
  "keyring \<Rightarrow> string list \<Rightarrow> (nat \<Rightarrow> string) \<Rightarrow> monitor \<Rightarrow> (exn + bool) \<times> event list" where
  "test_connection k lines poll m =
     (case get_stored_credentials k (config_name m) of
        None \<Rightarrow> (Inr False, [Print No_stored_credentials])
      | Some pfx \<Rightarrow>
          if pfx = [] then (Inr False, [Print No_stored_credentials])
          else (let (tok, evs1) = get_yubikey_token lines in
                case tok of
                  Inl e \<Rightarrow> (Inl e, [Print Testing_connection] @ evs1)
                | Inr token \<Rightarrow>
                    (let full_password = pfx @ token;
                         (ok, evs2) = connect_vpn False poll (config_name m) full_password
                     in (Inr ok, [Print Testing_connection] @ evs1 @ evs2))))"














section \<open>Status texts and their records\<close>

text \<open>A string no proper end of which is also a beginning of it. Two copies of such a
  string in a text cannot overlap.\<close>

definition unbordered :: "string \<Rightarrow> bool" where
  "unbordered s = (\<forall>p u. s = p @ u \<and> p \<noteq> [] \<and> u \<noteq> [] \<longrightarrow> \<not> prefix u s)"

text \<open>
  The records of a status text as the specification reads them: the chunks between the
  boundary tokens, each a list of \<^verbatim>\<open>key:value\<close> fields separated by commas. A record
  has a field when one of its comma-separated pieces, stripped, is that field.
\<close>

definition fields_of :: "string \<Rightarrow> string list" where
  "fields_of block = map str_strip (str_split '','' block)"

definition has_field :: "string \<Rightarrow> string \<Rightarrow> string \<Rightarrow> bool" where
  "has_field block key v = (key @ '':'' @ v \<in> set (fields_of block))"

text \<open>Some record of the text has the name \<open>X\<close> exactly; some record has the name \<open>X\<close>
  and the state \<open>Y\<close>.\<close>

definition names_record :: "string \<Rightarrow> string \<Rightarrow> bool" where
  "names_record blob X = list_ex (\<lambda>block. has_field block ''name'' X) (str_split boundary blob)"

definition has_record :: "string \<Rightarrow> string \<Rightarrow> string \<Rightarrow> bool" where
  "has_record blob X Y =
     list_ex (\<lambda>block. has_field block ''name'' X \<and> has_field block ''state'' Y)
       (str_split boundary blob)"

text \<open>The status text of the comment in \<^verbatim>\<open>_get_vpn_status\<close>, for one configuration and
  for two.\<close>

definition one_config_blob :: string where
  "one_config_blob =
     ''autoconnect:NO, state:EXITING, bytesOut:0, name:home-vpn2, class:configuration, bytesIn:0''"

definition two_config_blob :: string where
  "two_config_blob =
     ''autoconnect:NO, state:EXITING, bytesOut:0, name:home-vpn2, class:configuration, bytesIn:0, autoconnect:NO, state:CONNECTED, bytesOut:0, name:home-vpn, class:configuration, bytesIn:0''"

text \<open>Two records, the second with its state at the very end.\<close>

definition office_block :: string where
  "office_block = ''autoconnect:NO, state:CONNECTED, name:office, ''"

definition home_block :: string where
  "home_block = '', bytesIn:0, name:home-vpn2, state:EXITING''"


section \<open>Facts about the string operations\<close>

lemma str_contains_sublist: "str_contains sub s = sublist sub s"
  by (induction s) (auto simp: sublist_Cons_right)

lemma exiting_or_disconnected_iff: "exiting_or_disconnected status = shows_down status"
  by (simp add: exiting_or_disconnected_def str_contains_sublist)

lemma first_index:
  fixes P :: "nat \<Rightarrow> bool"
  assumes "\<exists>k<n. P k"
  shows "\<exists>k<n. P k \<and> (\<forall>j<k. \<not> P j)"
proof -
  from assms obtain k0 where k0: "k0 < n" "P k0" by blast
  define k where "k = (LEAST k. P k)"
  have "P k" unfolding k_def using k0(2) by (rule LeastI)
  moreover have "k \<le> k0" unfolding k_def using k0(2) by (rule Least_le)
  moreover have "\<forall>j<k. \<not> P j" unfolding k_def using not_less_Least by blast
  ultimately show ?thesis using k0(1) by (intro exI[of _ k]) simp
qed


section \<open>The polling loops\<close>

lemma polls_idle: "count_list (idle_iterations progress i k) Status_poll = k"
  by (induction k arbitrary: i) simp_all

lemma shift_range:
  assumes "\<forall>j<Suc k. P (i + j)"
  shows "P i" and "\<forall>j<k. P (Suc i + j)"
proof -
  show "P i" using assms[rule_format, of 0] by simp
  show "\<forall>j<k. P (Suc i + j)"
  proof (intro allI impI)
    fix j assume "j < k"
    then show "P (Suc i + j)" using assms[rule_format, of "Suc j"] by simp
  qed
qed

lemma disconnect_wait_none:
  "\<forall>j<n. \<not> exiting_or_disconnected (poll (i + j)) \<Longrightarrow>
   disconnect_wait poll i n = (False, idle_iterations False i n)"
proof (induction n arbitrary: i)
  case 0
  then show ?case by simp
next
  case (Suc n)
  from shift_range[OF Suc.prems] Suc.IH[of "Suc i"] show ?case by simp
qed

lemma disconnect_wait_first:
  "\<forall>j<k. \<not> exiting_or_disconnected (poll (i + j)) \<Longrightarrow>
   exiting_or_disconnected (poll (i + k)) \<Longrightarrow> k < n \<Longrightarrow>
   disconnect_wait poll i n = (True, idle_iterations False i k @ [Status_poll])"
proof (induction n arbitrary: i k)
  case 0
  then show ?case by simp
next
  case (Suc n)
  show ?case
  proof (cases k)
    case 0
    then show ?thesis using Suc.prems by simp
  next
    case (Suc k')
    have a: "\<not> exiting_or_disconnected (poll i)"
      and b: "\<forall>j<k'. \<not> exiting_or_disconnected (poll (Suc i + j))"
      using shift_range[of k' "\<lambda>m. \<not> exiting_or_disconnected (poll m)" i] Suc.prems(1) Suc
      by simp_all
    have c: "exiting_or_disconnected (poll (Suc i + k'))" using Suc.prems(2) Suc by simp
    have d: "k' < n" using Suc.prems(3) Suc by simp
    show ?thesis using Suc.IH[OF b c d] a Suc by simp
  qed
qed


lemma connected_not_down: "\<not> exiting_or_disconnected ''CONNECTED''"
  by (simp add: exiting_or_disconnected_def)

lemma connect_wait_none:
  "\<forall>j<n. \<not> terminal (poll (i + j)) \<Longrightarrow>
   connect_wait progress poll i n = (False, idle_iterations progress i n)"
proof (induction n arbitrary: i)
  case 0
  then show ?case by simp
next
  case (Suc n)
  from shift_range[OF Suc.prems] Suc.IH[of "Suc i"] show ?case by (simp add: terminal_def)
qed

lemma connect_wait_first:
  "\<forall>j<k. \<not> terminal (poll (i + j)) \<Longrightarrow> terminal (poll (i + k)) \<Longrightarrow> k < n \<Longrightarrow>
   connect_wait progress poll i n
     = (poll (i + k) = ''CONNECTED'', idle_iterations progress i k @ [Status_poll])"
proof (induction n arbitrary: i k)
  case 0
  then show ?case by simp
next
  case (Suc n)
  show ?case
  proof (cases k)
    case 0
    have "poll i \<noteq> ''CONNECTED''" if "exiting_or_disconnected (poll i)"
      using that connected_not_down by auto
    then show ?thesis using Suc.prems 0 by (auto simp: terminal_def Let_def)
  next
    case (Suc k')
    have a: "\<not> terminal (poll i)"
      and b: "\<forall>j<k'. \<not> terminal (poll (Suc i + j))"
      using shift_range[of k' "\<lambda>m. \<not> terminal (poll m)" i] Suc.prems(1) Suc
      by simp_all
    have c: "terminal (poll (Suc i + k'))" using Suc.prems(2) Suc by simp
    have d: "k' < n" using Suc.prems(3) Suc by simp
    show ?thesis using Suc.IH[OF b c d] a Suc by (simp add: terminal_def)
  qed
qed

lemma polls_setup: "count_list (setup_events progress c p) Status_poll = 0"
  by (simp add: setup_events_def)


section \<open>Disconnect\<close>

text \<open>
  Claim C3. For every sequence of statuses that the status poller returns, the disconnect
  operation returns success exactly when one of its first 10 polls returns a status that
  contains \<^verbatim>\<open>EXITING\<close> or \<^verbatim>\<open>DISCONNECTED\<close>. It never polls more than 10 times. When poll
  \<open>k\<close> is the first such poll, the operation issues the disconnect command, polls and
  sleeps one second \<open>k\<close> times, polls once more and returns success at once; when none of
  the 10 polls is one, it polls and sleeps 10 times and returns failure.
\<close>

theorem disconnect_vpn_correct:
  "(fst (disconnect_vpn poll name) \<longleftrightarrow> (\<exists>k<10. shows_down (poll k)))
   \<and> polls (snd (disconnect_vpn poll name)) \<le> 10
   \<and> (\<forall>k<10. shows_down (poll k) \<and> (\<forall>j<k. \<not> shows_down (poll j)) \<longrightarrow>
         disconnect_vpn poll name =
           (True, [Applescript (Disconnect_config name), Print Disconnecting]
                  @ idle_iterations False 0 k @ [Status_poll]))
   \<and> ((\<forall>k<10. \<not> shows_down (poll k)) \<longrightarrow>
         disconnect_vpn poll name =
           (False, [Applescript (Disconnect_config name), Print Disconnecting]
                   @ idle_iterations False 0 10))"
proof -
  let ?pre = "[Applescript (Disconnect_config name), Print Disconnecting]"
  let ?down = "\<lambda>k. exiting_or_disconnected (poll k)"
  have hit: "disconnect_vpn poll name
               = (True, ?pre @ idle_iterations False 0 k @ [Status_poll])"
    if "k < 10" "?down k" "\<forall>j<k. \<not> ?down j" for k
    using disconnect_wait_first[of k poll 0 10] that by (simp add: disconnect_vpn_def)
  have miss: "disconnect_vpn poll name = (False, ?pre @ idle_iterations False 0 10)"
    if "\<forall>k<10. \<not> ?down k"
    using disconnect_wait_none[of 10 poll 0] that by (simp add: disconnect_vpn_def)
  have ?thesis if "\<exists>k<10. ?down k"
  proof -
    from first_index[OF that] obtain k where k: "k < 10" "?down k" "\<forall>j<k. \<not> ?down j"
      by blast
    have "polls (snd (disconnect_vpn poll name)) = Suc k"
      using hit[OF k] by (simp add: polls_def polls_idle)
    then show ?thesis
      using that k hit miss unfolding exiting_or_disconnected_iff by auto
  qed
  moreover have ?thesis if "\<not> (\<exists>k<10. ?down k)"
  proof -
    from that have none: "\<forall>k<10. \<not> ?down k" by blast
    have "polls (snd (disconnect_vpn poll name)) = 10"
      using miss[OF none] by (simp add: polls_def polls_idle)
    then show ?thesis
      using that hit miss[OF none] unfolding exiting_or_disconnected_iff by auto
  qed
  ultimately show ?thesis by blast
qed

theorem disconnect_vpn_correct_witness:
  "shows_down ''EXITING'' \<and> \<not> shows_down ''CONNECTED''
   \<and> disconnect_vpn (\<lambda>k. if k = 2 then ''EXITING'' else ''CONNECTED'') ''home-vpn2''
       = (True, [Applescript (Disconnect_config ''home-vpn2''), Print Disconnecting,
                 Status_poll, Sleep 1, Status_poll, Sleep 1, Status_poll])"
proof -
  let ?poll = "\<lambda>k::nat. if k = 2 then ''EXITING'' else ''CONNECTED''"
  have down: "shows_down ''EXITING''" and up: "\<not> shows_down ''CONNECTED''"
    unfolding str_contains_sublist[symmetric] by simp_all
  have first: "shows_down (?poll 2) \<and> (\<forall>j<2. \<not> shows_down (?poll j))"
    using down up by simp
  from disconnect_vpn_correct[of ?poll "''home-vpn2''"]
  have "\<forall>k<10. shows_down (?poll k) \<and> (\<forall>j<k. \<not> shows_down (?poll j)) \<longrightarrow>
          disconnect_vpn ?poll ''home-vpn2''
            = (True, [Applescript (Disconnect_config ''home-vpn2''), Print Disconnecting]
                     @ idle_iterations False 0 k @ [Status_poll])"
    by blast
  from this[rule_format, of 2] first
  have "disconnect_vpn ?poll ''home-vpn2''
          = (True, [Applescript (Disconnect_config ''home-vpn2''), Print Disconnecting]
                   @ idle_iterations False 0 2 @ [Status_poll])"
    by simp
  then show ?thesis using down up by (simp add: numeral_2_eq_2)
qed

section \<open>Connect\<close>

text \<open>
  Claim C2. For every sequence of statuses that the status poller returns, and in both
  files, the connect operation returns success exactly when one of its first 30 polls
  returns the status \<^verbatim>\<open>CONNECTED\<close> and no earlier poll returns a status that contains
  \<^verbatim>\<open>EXITING\<close> or \<^verbatim>\<open>DISCONNECTED\<close>. It never polls more than 30 times, all of them after
  the connect command and the credential entry. At the first poll that is final, number
  \<open>k\<close>, it has polled and slept one second \<open>k\<close> times before, and returns at once: failure
  when the status contains \<^verbatim>\<open>EXITING\<close> or \<^verbatim>\<open>DISCONNECTED\<close>, success when it is
  \<^verbatim>\<open>CONNECTED\<close>. When none of the 30 polls is final it returns failure after 30 polls and
  30 sleeps.
\<close>

theorem connect_vpn_correct:
  "(fst (connect_vpn progress poll name password) \<longleftrightarrow>
      (\<exists>k<30. poll k = ''CONNECTED'' \<and> (\<forall>j<k. \<not> shows_down (poll j))))
   \<and> polls (snd (connect_vpn progress poll name password)) \<le> 30
   \<and> (\<forall>k<30. shows_down (poll k) \<and> (\<forall>j<k. poll j \<noteq> ''CONNECTED'' \<and> \<not> shows_down (poll j)) \<longrightarrow>
         connect_vpn progress poll name password =
           (False, setup_events progress name password
                   @ idle_iterations progress 0 k @ [Status_poll]))
   \<and> (\<forall>k<30. poll k = ''CONNECTED'' \<and> (\<forall>j<k. poll j \<noteq> ''CONNECTED'' \<and> \<not> shows_down (poll j)) \<longrightarrow>
         connect_vpn progress poll name password =
           (True, setup_events progress name password
                  @ idle_iterations progress 0 k @ [Status_poll]))
   \<and> ((\<forall>k<30. poll k \<noteq> ''CONNECTED'' \<and> \<not> shows_down (poll k)) \<longrightarrow>
         connect_vpn progress poll name password =
           (False, setup_events progress name password @ idle_iterations progress 0 30))"
proof -
  let ?pre = "setup_events progress name password"
  let ?run = "connect_vpn progress poll name password"
  let ?T = "\<lambda>k. terminal (poll k)"
  have T_iff: "terminal s \<longleftrightarrow> s = ''CONNECTED'' \<or> shows_down s" for s
    by (simp add: terminal_def exiting_or_disconnected_iff)
  have up: "\<not> shows_down ''CONNECTED''"
    using connected_not_down by (simp add: exiting_or_disconnected_iff)
  have hit: "?run = (poll k = ''CONNECTED'', ?pre @ idle_iterations progress 0 k @ [Status_poll])"
    if "k < 30" "?T k" "\<forall>j<k. \<not> ?T j" for k
    using connect_wait_first[of k poll 0 30 progress] that
    by (simp add: connect_vpn_def setup_events_def)
  have miss: "?run = (False, ?pre @ idle_iterations progress 0 30)"
    if "\<forall>k<30. \<not> ?T k"
    using connect_wait_none[of 30 poll 0 progress] that
    by (simp add: connect_vpn_def setup_events_def)
  have ?thesis if some: "\<exists>k<30. ?T k"
  proof -
    from first_index[OF some] obtain k where k: "k < 30" "?T k" "\<forall>j<k. \<not> ?T j"
      by blast
    note run = hit[OF k]
    have count: "polls (snd ?run) = Suc k"
      unfolding run by (simp add: polls_def polls_idle polls_setup)
    have unique: "m = k" if "m < 30" "?T m" "\<forall>j<m. poll j \<noteq> ''CONNECTED'' \<and> \<not> shows_down (poll j)" for m
    proof (rule ccontr)
      assume "m \<noteq> k"
      then consider "m < k" | "k < m" by linarith
      then show False
      proof cases
        case 1 then show ?thesis using k(3) that(2) by blast
      next
        case 2 then show ?thesis using that(3) k(2) by (auto simp: T_iff)
      qed
    qed
    have c1: "fst ?run \<longleftrightarrow> (\<exists>m<30. poll m = ''CONNECTED'' \<and> (\<forall>j<m. \<not> shows_down (poll j)))"
    proof
      assume "fst ?run"
      then have "poll k = ''CONNECTED''" unfolding run by simp
      moreover have "\<forall>j<k. \<not> shows_down (poll j)" using k(3) by (auto simp: T_iff)
      ultimately show "\<exists>m<30. poll m = ''CONNECTED'' \<and> (\<forall>j<m. \<not> shows_down (poll j))"
        using k(1) by blast
    next
      assume "\<exists>m<30. poll m = ''CONNECTED'' \<and> (\<forall>j<m. \<not> shows_down (poll j))"
      then obtain m where m: "m < 30" "poll m = ''CONNECTED''" "\<forall>j<m. \<not> shows_down (poll j)"
        by blast
      have "?T m" using m(2) by (simp add: T_iff)
      then have "\<not> m < k" using k(3) by blast
      then have "k \<le> m" by simp
      then have "\<not> shows_down (poll k)" using m(2,3) up by (cases "k = m") auto
      then have "poll k = ''CONNECTED''" using k(2) by (simp add: T_iff)
      then show "fst ?run" unfolding run by simp
    qed
    have c3: "\<forall>m<30. shows_down (poll m) \<and> (\<forall>j<m. poll j \<noteq> ''CONNECTED'' \<and> \<not> shows_down (poll j)) \<longrightarrow>
         ?run = (False, ?pre @ idle_iterations progress 0 m @ [Status_poll])"
    proof (intro allI impI)
      fix m assume m: "m < 30"
        "shows_down (poll m) \<and> (\<forall>j<m. poll j \<noteq> ''CONNECTED'' \<and> \<not> shows_down (poll j))"
      then have "m = k" using unique[of m] by (simp add: T_iff)
      moreover have "poll m \<noteq> ''CONNECTED''" using m(2) up by auto
      ultimately show "?run = (False, ?pre @ idle_iterations progress 0 m @ [Status_poll])"
        using run by simp
    qed
    have c4: "\<forall>m<30. poll m = ''CONNECTED'' \<and> (\<forall>j<m. poll j \<noteq> ''CONNECTED'' \<and> \<not> shows_down (poll j)) \<longrightarrow>
         ?run = (True, ?pre @ idle_iterations progress 0 m @ [Status_poll])"
    proof (intro allI impI)
      fix m assume m: "m < 30"
        "poll m = ''CONNECTED'' \<and> (\<forall>j<m. poll j \<noteq> ''CONNECTED'' \<and> \<not> shows_down (poll j))"
      then have "m = k" using unique[of m] by (simp add: T_iff)
      then show "?run = (True, ?pre @ idle_iterations progress 0 m @ [Status_poll])"
        using run m(2) by simp
    qed
    have c5: "(\<forall>k<30. poll k \<noteq> ''CONNECTED'' \<and> \<not> shows_down (poll k)) \<longrightarrow>
         ?run = (False, ?pre @ idle_iterations progress 0 30)"
      using k(1,2) by (auto simp: T_iff)
    from c1 count k(1) c3 c4 c5 show ?thesis by simp
  qed
  moreover have ?thesis if none: "\<not> (\<exists>k<30. ?T k)"
  proof -
    from none have all: "\<forall>k<30. \<not> ?T k" by blast
    note run = miss[OF all]
    have count: "polls (snd ?run) = 30"
      unfolding run by (simp add: polls_def polls_idle polls_setup)
    have c1: "fst ?run \<longleftrightarrow> (\<exists>m<30. poll m = ''CONNECTED'' \<and> (\<forall>j<m. \<not> shows_down (poll j)))"
      unfolding run using all by (auto simp: T_iff)
    have c3: "\<forall>m<30. shows_down (poll m) \<and> (\<forall>j<m. poll j \<noteq> ''CONNECTED'' \<and> \<not> shows_down (poll j)) \<longrightarrow>
         ?run = (False, ?pre @ idle_iterations progress 0 m @ [Status_poll])"
      using all by (auto simp: T_iff)
    have c4: "\<forall>m<30. poll m = ''CONNECTED'' \<and> (\<forall>j<m. poll j \<noteq> ''CONNECTED'' \<and> \<not> shows_down (poll j)) \<longrightarrow>
         ?run = (True, ?pre @ idle_iterations progress 0 m @ [Status_poll])"
      using all by (auto simp: T_iff)
    from c1 count c3 c4 run show ?thesis by simp
  qed
  ultimately show ?thesis by blast
qed


theorem connect_vpn_correct_witness:
  "\<not> shows_down ''AUTH''
   \<and> connect_vpn False (\<lambda>k. if k = 2 then ''CONNECTED'' else ''AUTH'') ''home-vpn2'' ''pw042018''
       = (True, [Applescript (Connect_config ''home-vpn2''), Sleep 2,
                 Applescript (Enter_password ''pw042018''),
                 Status_poll, Sleep 1, Status_poll, Sleep 1, Status_poll])"
proof -
  let ?poll = "\<lambda>k::nat. if k = 2 then ''CONNECTED'' else ''AUTH''"
  have idle: "\<not> shows_down ''AUTH''"
    unfolding str_contains_sublist[symmetric] by simp
  have first: "?poll 2 = ''CONNECTED''
      \<and> (\<forall>j<2. ?poll j \<noteq> ''CONNECTED'' \<and> \<not> shows_down (?poll j))"
    using idle by simp
  from connect_vpn_correct[of False ?poll "''home-vpn2''" "''pw042018''"]
  have "\<forall>k<30. ?poll k = ''CONNECTED''
            \<and> (\<forall>j<k. ?poll j \<noteq> ''CONNECTED'' \<and> \<not> shows_down (?poll j)) \<longrightarrow>
          connect_vpn False ?poll ''home-vpn2'' ''pw042018''
            = (True, setup_events False ''home-vpn2'' ''pw042018''
                     @ idle_iterations False 0 k @ [Status_poll])"
    by blast
  from this[rule_format, of 2] first
  have "connect_vpn False ?poll ''home-vpn2'' ''pw042018''
          = (True, setup_events False ''home-vpn2'' ''pw042018''
                   @ idle_iterations False 0 2 @ [Status_poll])"
    by simp
  then show ?thesis using idle by (simp add: numeral_2_eq_2 setup_events_def)
qed


section \<open>The token prompt: facts\<close>












section \<open>The secret store: facts\<close>

lemma service_name_inj: "(service_name a = service_name b) = (a = b)"
  by (simp add: service_name_def)

lemma store_all_working: "working (store_all k writes) = working k"
  by (induction k writes rule: store_all.induct)
     (auto simp: store_credentials_def keyring_set_password_def split: sum.splits if_splits)

lemma store_all_other:
  "name \<notin> fst ` set writes \<Longrightarrow>
   secrets (store_all k writes) (service_name name, ''prefix'')
     = secrets k (service_name name, ''prefix'')"
  by (induction k writes rule: store_all.induct)
     (auto simp: store_credentials_def keyring_set_password_def service_name_inj
           split: sum.splits if_splits)

text \<open>
  Claim C7. For every configuration name and prefix, on a vault that works, storing the
  prefix succeeds and retrieving for the same name then returns exactly that string, also
  after any number of writes for other names. Retrieving for a name whose entry was never
  written returns the absent value, whatever was written for other names. When the vault
  raises an error at retrieval, the result is the absent value too.
\<close>

theorem credentials_round_trip:
  "(working k \<and> name \<notin> fst ` set writes \<longrightarrow>
      (\<exists>k'. store_credentials k name pfx = Inr (k', [Print Credentials_stored])
            \<and> get_stored_credentials k' name = Some pfx
            \<and> get_stored_credentials (store_all k' writes) name = Some pfx))
   \<and> (secrets k (service_name name, ''prefix'') = None \<and> name \<notin> fst ` set writes \<longrightarrow>
        get_stored_credentials (store_all k writes) name = None)
   \<and> (\<not> working k \<longrightarrow> get_stored_credentials k name = None)"
proof (intro conjI impI)
  assume a: "working k \<and> name \<notin> fst ` set writes"
  let ?k' = "k\<lparr>secrets := (secrets k)((service_name name, ''prefix'') \<mapsto> pfx)\<rparr>"
  have "store_credentials k name pfx = Inr (?k', [Print Credentials_stored])"
    using a by (simp add: store_credentials_def keyring_set_password_def)
  moreover have "get_stored_credentials ?k' name = Some pfx"
    using a by (simp add: get_stored_credentials_def keyring_get_password_def)
  moreover have "get_stored_credentials (store_all ?k' writes) name = Some pfx"
    using a store_all_other[of name writes ?k'] store_all_working[of ?k' writes]
    by (simp add: get_stored_credentials_def keyring_get_password_def)
  ultimately show "\<exists>k'. store_credentials k name pfx = Inr (k', [Print Credentials_stored])
            \<and> get_stored_credentials k' name = Some pfx
            \<and> get_stored_credentials (store_all k' writes) name = Some pfx"
    by (intro exI[of _ ?k'] conjI)
next
  assume "secrets k (service_name name, ''prefix'') = None \<and> name \<notin> fst ` set writes"
  then show "get_stored_credentials (store_all k writes) name = None"
    using store_all_other[of name writes k]
    by (simp add: get_stored_credentials_def keyring_get_password_def)
next
  assume "\<not> working k"
  then show "get_stored_credentials k name = None"
    by (simp add: get_stored_credentials_def keyring_get_password_def)
qed

theorem credentials_round_trip_witness:
  "get_stored_credentials
     (store_all empty_keyring [(''home-vpn2'', ''hunter''), (''office'', ''secret'')]) ''home-vpn2''
     = Some ''hunter''
   \<and> get_stored_credentials (store_all empty_keyring [(''office'', ''secret'')]) ''home-vpn2''
     = None
   \<and> get_stored_credentials (empty_keyring\<lparr>working := False\<rparr>) ''home-vpn2'' = None"
proof -
  note rt = credentials_round_trip[of empty_keyring "''home-vpn2''" "[(''office'', ''secret'')]"
      "''hunter''"]
  have w: "working empty_keyring \<and> ''home-vpn2'' \<notin> fst ` set [(''office'', ''secret'')]"
    by (simp add: empty_keyring_def)
  have e: "secrets empty_keyring (service_name ''home-vpn2'', ''prefix'') = None
           \<and> ''home-vpn2'' \<notin> fst ` set [(''office'', ''secret'')]"
    by (simp add: empty_keyring_def)
  from rt[THEN conjunct1, THEN mp, OF w] obtain k' where
      k': "store_credentials empty_keyring ''home-vpn2'' ''hunter''
             = Inr (k', [Print Credentials_stored])"
      "get_stored_credentials (store_all k' [(''office'', ''secret'')]) ''home-vpn2''
         = Some ''hunter''"
    by (elim exE conjE)
  have 1: "get_stored_credentials
     (store_all empty_keyring [(''home-vpn2'', ''hunter''), (''office'', ''secret'')]) ''home-vpn2''
     = Some ''hunter''"
    using k' by simp
  have 2: "get_stored_credentials (store_all empty_keyring [(''office'', ''secret'')]) ''home-vpn2''
     = None"
    by (rule rt[THEN conjunct2, THEN conjunct1, THEN mp, OF e])
  have 3: "get_stored_credentials (empty_keyring\<lparr>working := False\<rparr>) ''home-vpn2'' = None"
    by (rule credentials_round_trip[of "empty_keyring\<lparr>working := False\<rparr>" "''home-vpn2''"
          "[]" "''x''", THEN conjunct2, THEN conjunct2, THEN mp]) simp
  from 1 2 3 show ?thesis by (intro conjI)
qed


section \<open>Starting without a stored prefix\<close>

text \<open>
  Claim C10. When the retrieved prefix is absent or is the empty string,
  \<^verbatim>\<open>start_monitoring\<close> returns with the monitor unchanged, so the running flag is never
  set, having printed only that no credentials were found; and \<^verbatim>\<open>test_connection\<close>
  returns failure after the same single message, with no prompt for a token and no
  connect attempt.
\<close>

theorem no_prefix_no_monitoring:
  "get_stored_credentials k (config_name m) = None
     \<or> get_stored_credentials k (config_name m) = Some [] \<Longrightarrow>
   start_monitoring k envs m = Some (m, [Print No_stored_credentials])
   \<and> test_connection k lines poll m = (Inr False, [Print No_stored_credentials])"
  by (auto simp: start_monitoring_def test_connection_def)

theorem no_prefix_no_monitoring_witness:
  "get_stored_credentials (store_all empty_keyring [(''home-vpn2'', '''')]) ''home-vpn2'' = Some []
   \<and> running (init_monitor ''home-vpn2'' 30) = False
   \<and> start_monitoring (store_all empty_keyring [(''home-vpn2'', '''')]) []
        (init_monitor ''home-vpn2'' 30)
       = Some (init_monitor ''home-vpn2'' 30, [Print No_stored_credentials])
   \<and> test_connection (store_all empty_keyring [(''home-vpn2'', '''')]) [''042018'']
        (\<lambda>k. ''CONNECTED'') (init_monitor ''home-vpn2'' 30)
       = (Inr False, [Print No_stored_credentials])"
proof -
  let ?k = "store_all empty_keyring [(''home-vpn2'', '''')]"
  let ?m = "init_monitor ''home-vpn2'' 30"
  have got: "get_stored_credentials ?k ''home-vpn2'' = Some []"
    by (simp add: empty_keyring_def store_credentials_def keyring_set_password_def
        get_stored_credentials_def keyring_get_password_def)
  have name: "config_name ?m = ''home-vpn2''" and idle: "running ?m = False"
    by (simp_all add: init_monitor_def)
  have hyp: "get_stored_credentials ?k (config_name ?m) = None
     \<or> get_stored_credentials ?k (config_name ?m) = Some []"
    unfolding name using got by (rule disjI2)
  note r = no_prefix_no_monitoring[OF hyp, of "[]" "[''042018'']" "\<lambda>k. ''CONNECTED''"]
  from got idle r[THEN conjunct1] r[THEN conjunct2] show ?thesis by (intro conjI)
qed

section \<open>The monitor: state after each part of a cycle\<close>



lemma snd_deliver:
  "snd (deliver env ph m) = (if signals env ph then [Print Received_signal] else [])"
  by (simp add: deliver_def signal_handler_def)











section \<open>The monitor: exceptions\<close>










section \<open>The reconnect counter\<close>








section \<open>Shutdown and the handler of the loop\<close>










section \<open>The status parser: splitting and searching\<close>

lemma unbordered_state: "unbordered ''state:''"
  unfolding unbordered_def by (auto simp: Cons_eq_append_conv)

lemma unbordered_boundary: "unbordered boundary"
  unfolding unbordered_def boundary_def by (auto simp: Cons_eq_append_conv)

lemma no_straddle:
  assumes ub: "unbordered s" and ns: "\<not> sublist s p" and ne: "p \<noteq> []"
  shows "\<not> prefix s (p @ s @ rest)"
proof
  assume pre: "prefix s (p @ s @ rest)"
  show False
  proof (cases "length s \<le> length p")
    case True
    with pre have "prefix s p" by (metis prefix_length_prefix prefixI append.assoc prefix_order.order_refl append_prefixD prefix_append)
    then show False using ns by (auto simp: prefix_def sublist_def) 
  next
    case False
    from pre have "prefix s p \<or> (\<exists>u. s = p @ u \<and> prefix u (s @ rest))"
      by (auto simp: prefix_append)
    moreover have "\<not> prefix s p" using False by (auto dest: prefix_length_le)
    ultimately obtain u where u: "s = p @ u" "prefix u (s @ rest)" by blast
    have "u \<noteq> []" using False u(1) by auto
    have "length u \<le> length s" using u(1) by simp
    with u(2) have "prefix u s"
      by (metis prefix_length_prefix prefixI prefix_order.order_refl prefix_append append_prefixD)
    with ub u(1) ne \<open>u \<noteq> []\<close> show False unfolding unbordered_def by blast
  qed
qed

lemma prefix_not_sublist: "\<not> sublist s (c # cs) \<Longrightarrow> \<not> prefix s (c # cs) \<and> \<not> sublist s cs"
  by (simp add: sublist_Cons_right)

lemma split_none:
  "\<not> sublist sep p \<Longrightarrow> str_split sep p = [p]"
proof (induction p)
  case Nil
  then show ?case by simp
next
  case (Cons c cs)
  from prefix_not_sublist[OF Cons.prems] Cons.IH show ?case by simp
qed

lemma split_cut:
  assumes ub: "unbordered sep" and ne: "sep \<noteq> []"
  shows "\<not> sublist sep p \<Longrightarrow> str_split sep (p @ sep @ rest) = p # str_split sep rest"
proof (induction p)
  case Nil
  obtain c cs where sep: "sep = c # cs" using ne by (cases sep) auto
  have "str_split sep (sep @ rest) = [] # str_split sep (drop (length sep) (sep @ rest))"
    unfolding sep by simp
  then show ?case by simp
next
  case (Cons c cs)
  have ns: "\<not> sublist sep cs" using prefix_not_sublist[OF Cons.prems] by simp
  have "\<not> prefix sep ((c # cs) @ sep @ rest)"
    using no_straddle[OF ub Cons.prems] by simp
  then show ?case using Cons.IH[OF ns] by simp
qed

lemma split_join:
  assumes ub: "unbordered sep" and ne: "sep \<noteq> []"
  shows "bs \<noteq> [] \<Longrightarrow> \<forall>b\<in>set bs. \<not> sublist sep b \<Longrightarrow> str_split sep (str_join sep bs) = bs"
proof (induction bs rule: induct_list012)
  case 1
  then show ?case by simp
next
  case (2 p)
  then show ?case by (simp add: split_none)
next
  case (3 p q ps)
  have np: "\<not> sublist sep p" using "3.prems"(2) by simp
  have rest: "str_split sep (str_join sep (q # ps)) = q # ps"
    using "3.IH"(2) "3.prems"(2) by simp
  show ?case using split_cut[OF ub ne np, of "str_join sep (q # ps)"] rest by simp
qed

lemma find_at_first:
  assumes ub: "unbordered sub"
  shows "\<not> sublist sub pre \<Longrightarrow> find_at sub (pre @ sub @ rest) i = int (i + length pre)"
proof (induction pre arbitrary: i)
  case Nil
  show ?case
  proof (cases "sub @ rest")
    case Nil then show ?thesis by simp
  next
    case (Cons c cs)
    have "prefix sub (c # cs)" using Cons by (metis prefixI)
    then show ?thesis using Cons by simp
  qed
next
  case (Cons c cs)
  have ns: "\<not> sublist sub cs" using prefix_not_sublist[OF Cons.prems] by simp
  have "\<not> prefix sub ((c # cs) @ sub @ rest)"
    using no_straddle[OF ub Cons.prems] by simp
  then show ?case using Cons.IH[OF ns, of "Suc i"] by simp
qed

lemma find_char_none: "c \<notin> set xs \<Longrightarrow> find_at [c] xs i = - 1"
  by (induction xs arbitrary: i) auto

lemma find_char_first: "c \<notin> set xs \<Longrightarrow> find_at [c] (xs @ c # rest) i = int (i + length xs)"
  by (induction xs arbitrary: i) auto

lemma nat_plus_6: "nat (int n + 6) = n + 6"
  by simp

lemma block_state:
  assumes blk: "block = pre @ ''state:'' @ Y @ post"
    and first: "\<not> sublist ''state:'' pre"
    and nocomma: "CHR '','' \<notin> set Y"
    and ends: "post = [] \<or> hd post = CHR '',''"
  shows "(let state_start = str_find block ''state:'' 0 in
          if state_start \<noteq> - 1 then
            (let state_end = str_find block '','' (nat state_start);
                 state_end = (if state_end = - 1 then int (length block) else state_end)
             in str_strip (str_slice block (nat (state_start + 6)) (nat state_end)))
          else other) = str_strip Y"
proof -
  have start: "str_find block ''state:'' 0 = int (length pre)"
    using find_at_first[OF unbordered_state first, of "Y @ post" 0]
    by (simp add: str_find_def blk)
  have nc: "CHR '','' \<notin> set (''state:'' @ Y)" using nocomma by simp
  have drop: "drop (length pre) block = (''state:'' @ Y) @ post" by (simp add: blk)
  have len: "length pre \<le> length block" by (simp add: blk)
  show ?thesis
  proof (cases post)
    case Nil
    have fin: "str_find block '','' (length pre) = - 1"
      using find_char_none[OF nc, of "length pre"] drop len Nil by (simp add: str_find_def)
    have "str_slice block (length pre + 6) (length block) = Y"
      by (simp add: str_slice_def blk Nil)
    then show ?thesis by (simp add: start fin Let_def nat_plus_6)
  next
    case (Cons c rest)
    with ends have c: "c = CHR '',''" by simp
    have fin: "str_find block '','' (length pre) = int (length pre + 6 + length Y)"
      using find_char_first[OF nc, of rest "length pre"] drop len Cons c
      by (simp add: str_find_def)
    have "str_slice block (length pre + 6) (length pre + 6 + length Y) = Y"
      by (simp add: str_slice_def blk)
    then show ?thesis by (simp add: start fin Let_def nat_plus_6 del: of_nat_add)
  qed
qed

lemma scan_blocks_found:
  assumes blk: "block = pre @ ''state:'' @ Y @ post"
    and first: "\<not> sublist ''state:'' pre"
    and nocomma: "CHR '','' \<notin> set Y"
    and ends: "post = [] \<or> hd post = CHR '',''"
    and named: "sublist (''name:'' @ X) block"
  shows "\<forall>b\<in>set before. \<not> sublist (''name:'' @ X) b \<Longrightarrow>
         scan_blocks X (before @ block # after) = str_strip Y"
proof (induction before)
  case Nil
  have n: "str_contains (''name:'' @ X) block" using named by (simp only: str_contains_sublist)
  have "scan_blocks X (block # after) = str_strip Y"
    unfolding scan_blocks.simps using n block_state[OF blk first nocomma ends]
    by (simp only: if_True)
  then show ?case by simp
next
  case (Cons b bs)
  then have "\<not> str_contains (''name:'' @ X) b" and "\<forall>b\<in>set bs. \<not> sublist (''name:'' @ X) b"
    by (simp_all only: str_contains_sublist list.set ball_simps insert_iff
        ball_Un) auto
  then show ?case using Cons.IH by (simp only: append_Cons scan_blocks.simps if_False)
qed

lemma scan_blocks_not_found:
  "\<forall>b\<in>set blocks. \<not> sublist (''name:'' @ X) b \<Longrightarrow> scan_blocks X blocks = ''NOT_FOUND''"
  by (induction blocks) (simp_all add: str_contains_sublist del: str_contains.simps)

section \<open>The status parser: the state of a named record\<close>

lemma dropWhile_id: "xs = [] \<or> \<not> P (hd xs) \<Longrightarrow> dropWhile P xs = xs"
  by (cases xs) auto

lemma strip_id:
  assumes "Y = [] \<or> (\<not> is_space (hd Y) \<and> \<not> is_space (last Y))"
  shows "str_strip Y = Y"
proof -
  have front: "dropWhile is_space Y = Y" using assms by (intro dropWhile_id) auto
  have "rev Y = [] \<or> \<not> is_space (hd (rev Y))" using assms by (auto simp: hd_rev)
  then have "dropWhile is_space (rev Y) = rev Y" by (rule dropWhile_id)
  then show ?thesis by (simp add: str_strip_def front)
qed

lemma join_nonempty: "b \<in> set bs \<Longrightarrow> b \<noteq> [] \<Longrightarrow> str_join sep bs \<noteq> []"
  by (induction sep bs rule: str_join.induct) auto

text \<open>
  Claim C1, as the code has it. Let the status text be records joined by the boundary
  token, none of them holding the token itself. Let one record hold the text
  \<^verbatim>\<open>name:X\<close>, with no record before it holding that text, and let the first
  \<^verbatim>\<open>state:\<close> in that record be followed by \<open>Y\<close>, which has no comma, and then by a
  comma or by the end of the record. Then the parser returns \<open>Y\<close> stripped of surrounding
  whitespace, which is \<open>Y\<close> itself when it has none; there may be any number of records
  before and after. For a text that is not empty and in which no chunk holds the text
  \<^verbatim>\<open>name:X\<close> it returns \<^verbatim>\<open>NOT_FOUND\<close>. For the empty text it returns
  \<^verbatim>\<open>UNKNOWN\<close>, and so does the whole function when the bridge fails or prints only
  whitespace.
\<close>

theorem parse_status_correct:
  "(result = str_join boundary (before @ block # after)
      \<and> (\<forall>b\<in>set (before @ block # after). \<not> sublist boundary b)
      \<and> (\<forall>b\<in>set before. \<not> sublist (''name:'' @ X) b)
      \<and> sublist (''name:'' @ X) block
      \<and> block = pre @ ''state:'' @ Y @ post
      \<and> \<not> sublist ''state:'' pre \<and> CHR '','' \<notin> set Y \<and> (post = [] \<or> hd post = CHR '','')
    \<longrightarrow> parse_status result X = str_strip Y
        \<and> (Y = [] \<or> (\<not> is_space (hd Y) \<and> \<not> is_space (last Y)) \<longrightarrow> parse_status result X = Y))
   \<and> (result \<noteq> [] \<and> (\<forall>b\<in>set (str_split boundary result). \<not> sublist (''name:'' @ X) b)
        \<longrightarrow> parse_status result X = ''NOT_FOUND'')
   \<and> parse_status [] X = ''UNKNOWN''
   \<and> get_vpn_status (CalledProcessError stderr) X = ''UNKNOWN''
   \<and> (str_strip stdout = [] \<longrightarrow> get_vpn_status (Completed stdout) X = ''UNKNOWN'')"
proof -
  have found: "parse_status result X = str_strip Y
        \<and> (Y = [] \<or> (\<not> is_space (hd Y) \<and> \<not> is_space (last Y)) \<longrightarrow> parse_status result X = Y)"
    if h: "result = str_join boundary (before @ block # after)"
      "\<forall>b\<in>set (before @ block # after). \<not> sublist boundary b"
      "\<forall>b\<in>set before. \<not> sublist (''name:'' @ X) b"
      "sublist (''name:'' @ X) block"
      "block = pre @ ''state:'' @ Y @ post"
      "\<not> sublist ''state:'' pre" "CHR '','' \<notin> set Y" "post = [] \<or> hd post = CHR '',''"
  proof -
    have "block \<noteq> []" using h(5) by simp
    then have ne: "result \<noteq> []"
      unfolding h(1) by (intro join_nonempty[of block]) simp_all
    have bne: "boundary \<noteq> []" by (simp add: boundary_def)
    have split: "str_split boundary result = before @ block # after"
      unfolding h(1) using split_join[OF unbordered_boundary bne, of "before @ block # after"] h(2)
      by simp
    have "parse_status result X = str_strip Y"
      using ne split scan_blocks_found[OF h(5) h(6) h(7) h(8) h(4) h(3), of after]
      by (simp add: parse_status_def)
    then show ?thesis using strip_id[of Y] by simp
  qed
  have missing: "parse_status result X = ''NOT_FOUND''"
    if "result \<noteq> []" "\<forall>b\<in>set (str_split boundary result). \<not> sublist (''name:'' @ X) b"
    using that scan_blocks_not_found[of "str_split boundary result" X]
    by (simp add: parse_status_def)
  have e1: "parse_status [] X = ''UNKNOWN''" by (simp add: parse_status_def)
  have e2: "get_vpn_status (CalledProcessError stderr) X = ''UNKNOWN''"
    by (simp add: get_vpn_status_def parse_status_def)
  have e3: "str_strip stdout = [] \<longrightarrow> get_vpn_status (Completed stdout) X = ''UNKNOWN''"
    by (simp add: get_vpn_status_def parse_status_def)
  from found missing e1 e2 e3 show ?thesis by blast
qed

theorem parse_status_correct_witness:
  "str_join boundary [office_block, home_block]
     = ''autoconnect:NO, state:CONNECTED, name:office, class:configuration, bytesIn:0, name:home-vpn2, state:EXITING''
   \<and> parse_status (str_join boundary [office_block, home_block]) ''home-vpn2'' = ''EXITING''"
proof -
  let ?result = "str_join boundary [office_block, home_block]"
  have written: "?result
     = ''autoconnect:NO, state:CONNECTED, name:office, class:configuration, bytesIn:0, name:home-vpn2, state:EXITING''"
    by (simp add: boundary_def office_block_def home_block_def)
  have clean: "\<not> sublist boundary office_block" "\<not> sublist boundary home_block"
    unfolding str_contains_sublist[symmetric]
    by (simp_all add: boundary_def office_block_def home_block_def)
  have other: "\<not> sublist (''name:'' @ ''home-vpn2'') office_block"
    unfolding str_contains_sublist[symmetric] by (simp add: office_block_def)
  have named: "sublist (''name:'' @ ''home-vpn2'') home_block"
    unfolding str_contains_sublist[symmetric] by (simp add: home_block_def)
  have shape: "home_block = '', bytesIn:0, name:home-vpn2, '' @ ''state:'' @ ''EXITING'' @ []"
    by (simp add: home_block_def)
  have first: "\<not> sublist ''state:'' '', bytesIn:0, name:home-vpn2, ''"
    unfolding str_contains_sublist[symmetric] by simp
  have hyp: "?result = str_join boundary ([office_block] @ home_block # [])
      \<and> (\<forall>b\<in>set ([office_block] @ home_block # []). \<not> sublist boundary b)
      \<and> (\<forall>b\<in>set [office_block]. \<not> sublist (''name:'' @ ''home-vpn2'') b)
      \<and> sublist (''name:'' @ ''home-vpn2'') home_block
      \<and> home_block = '', bytesIn:0, name:home-vpn2, '' @ ''state:'' @ ''EXITING'' @ []
      \<and> \<not> sublist ''state:'' '', bytesIn:0, name:home-vpn2, ''
      \<and> CHR '','' \<notin> set ''EXITING'' \<and> ([] = [] \<or> hd [] = CHR '','')"
    using clean other named shape first by simp
  have "parse_status ?result ''home-vpn2'' = str_strip ''EXITING''"
    using parse_status_correct[of ?result "[office_block]" home_block "[]" "''home-vpn2''"
        "'', bytesIn:0, name:home-vpn2, ''" "''EXITING''" "[]" "[]" "[]",
        THEN conjunct1, THEN mp, OF hyp]
    by (rule conjunct1)
  then have "parse_status ?result ''home-vpn2'' = ''EXITING''"
    by (simp add: str_strip_def is_space_def)
  with written show ?thesis by (rule conjI)
qed

section \<open>The status parser: names that begin alike\<close>

lemma one_split: "str_split boundary one_config_blob
    = [''autoconnect:NO, state:EXITING, bytesOut:0, name:home-vpn2, '', '', bytesIn:0'']"
  by (simp add: boundary_def one_config_blob_def)

lemma two_split: "str_split boundary two_config_blob
    = [''autoconnect:NO, state:EXITING, bytesOut:0, name:home-vpn2, '',
       '', bytesIn:0, autoconnect:NO, state:CONNECTED, bytesOut:0, name:home-vpn, '',
       '', bytesIn:0'']"
  by (simp add: boundary_def two_config_blob_def)

text \<open>
  The claim as it is written asks for the state of the record whose name is \<open>X\<close>. In the
  text of two configurations, \<^verbatim>\<open>home-vpn2\<close> first and \<^verbatim>\<open>home-vpn\<close> second, the record
  named \<^verbatim>\<open>home-vpn\<close> has the state \<^verbatim>\<open>CONNECTED\<close>, and the parser asked for
  \<^verbatim>\<open>home-vpn\<close> returns \<^verbatim>\<open>EXITING\<close>, the state of the record before it.
\<close>

theorem parse_status_wrong_record:
  "has_record two_config_blob ''home-vpn'' ''CONNECTED''
   \<and> parse_status two_config_blob ''home-vpn'' = ''EXITING''"
proof
  show "has_record two_config_blob ''home-vpn'' ''CONNECTED''"
    unfolding has_record_def two_split
    by (simp add: has_field_def fields_of_def str_strip_def is_space_def)
  have "two_config_blob \<noteq> []" by (simp add: two_config_blob_def)
  then show "parse_status two_config_blob ''home-vpn'' = ''EXITING''"
    unfolding parse_status_def two_split
    by (simp add: str_find_def str_slice_def str_strip_def is_space_def)
qed

text \<open>
  Claim C4. There are a status text and a requested name \<open>X\<close> such that no record of the
  text has the name \<open>X\<close> exactly, \<open>X\<close> is a proper prefix of the name of another
  configuration, and the parser returns the state of that configuration's record, not
  \<^verbatim>\<open>NOT_FOUND\<close>.
\<close>

theorem prefix_name_matches_other_record:
  "\<exists>blob X other. \<not> names_record blob X \<and> strict_prefix X other
     \<and> has_record blob other (parse_status blob X)
     \<and> parse_status blob X \<noteq> ''NOT_FOUND''"
proof -
  have ne: "one_config_blob \<noteq> []" by (simp add: one_config_blob_def)
  have parsed: "parse_status one_config_blob ''home-vpn'' = ''EXITING''"
    unfolding parse_status_def one_split using ne
    by (simp add: str_find_def str_slice_def str_strip_def is_space_def)
  have absent: "\<not> names_record one_config_blob ''home-vpn''"
    unfolding names_record_def one_split
    by (simp add: has_field_def fields_of_def str_strip_def is_space_def)
  have longer: "strict_prefix ''home-vpn'' ''home-vpn2''"
    by (simp add: strict_prefix_def)
  have other: "has_record one_config_blob ''home-vpn2'' ''EXITING''"
    unfolding has_record_def one_split
    by (simp add: has_field_def fields_of_def str_strip_def is_space_def)
  have "\<not> names_record one_config_blob ''home-vpn'' \<and> strict_prefix ''home-vpn'' ''home-vpn2''
     \<and> has_record one_config_blob ''home-vpn2'' (parse_status one_config_blob ''home-vpn'')
     \<and> parse_status one_config_blob ''home-vpn'' \<noteq> ''NOT_FOUND''"
    using absent longer other unfolding parsed by simp
  then show ?thesis by (intro exI)
qed

end
